theory Spec2Isabelle
  imports Complex_Main "HOL-Library.AList"
begin

section \<open>TimedCache of src/utils/containers.py\<close>

text \<open>
  \<^verbatim>\<open>TimedCache\<close> is a \<^verbatim>\<open>MutableMapping\<close> whose entries delete themselves: every
  \<^verbatim>\<open>__setitem__\<close> stores the pair \<^verbatim>\<open>(value, task)\<close> under the key, where the task is
  an asyncio task running \<^verbatim>\<open>_timed_del\<close>, which sleeps and then pops the key.
  Everything runs on one event loop, so the methods of the class are atomic and a
  task body runs only when the loop wakes the task.
\<close>

subsection \<open>Python values\<close>

text \<open>
  Keys, stored values and defaults are Python objects. The fragment used here has
  \<^verbatim>\<open>None\<close>, integers, strings, tuples and task handles; all of them are hashable and
  two of them are equal in Python exactly when they are equal here.
\<close>

datatype pyval = PNone | PInt int | PStr string | PTuple "pyval list" | PTask nat

datatype error = KeyError pyval | TypeError | AttributeError | ValueError | IndexError

text \<open>Truth value of an object, as tested by \<^verbatim>\<open>if\<close>, \<^verbatim>\<open>or\<close> and \<^verbatim>\<open>:=\<close> conditions.\<close>

fun truthy :: "pyval \<Rightarrow> bool" where
  "truthy PNone = False"
| "truthy (PInt n) = (n \<noteq> 0)"
| "truthy (PStr s) = (s \<noteq> [])"
| "truthy (PTuple xs) = (xs \<noteq> [])"
| "truthy (PTask t) = True"

text \<open>
  \<^verbatim>\<open>obj[i]\<close> for an index \<open>i \<ge> 0\<close>: tuples and strings are subscriptable, the other
  objects raise \<^verbatim>\<open>TypeError\<close>.
\<close>

fun subscript :: "pyval \<Rightarrow> nat \<Rightarrow> error + pyval" where
  "subscript (PTuple xs) i = (if i < length xs then Inr (xs ! i) else Inl IndexError)"
| "subscript (PStr s) i = (if i < length s then Inr (PStr [s ! i]) else Inl IndexError)"
| "subscript PNone i = Inl TypeError"
| "subscript (PInt n) i = Inl TypeError"
| "subscript (PTask t) i = Inl TypeError"

subsection \<open>Delays\<close>

text \<open>
  A \<^verbatim>\<open>timedelta\<close> is a whole number of microseconds. A \<^verbatim>\<open>datetime\<close> is either
  timezone-aware (an instant, in microseconds since the epoch) or naive (a
  wall-clock reading without \<^verbatim>\<open>tzinfo\<close>). Seconds are exact numbers here: the
  rounding of Python's floats is not modelled.
\<close>

datatype datetime = Aware int | Naive int

datatype delay = Timedelta int | Datetime datetime | Number real | NoDelay

definition total_seconds :: "int \<Rightarrow> real" where
  "total_seconds us = real_of_int us / 1000000"

text \<open>
  \<^verbatim>\<open>a - b\<close> on two \<^verbatim>\<open>datetime\<close>s gives a \<^verbatim>\<open>timedelta\<close>; mixing an aware and a naive
  operand raises \<^verbatim>\<open>TypeError\<close> ("can't subtract offset-naive and offset-aware
  datetimes").
\<close>

fun datetime_sub :: "datetime \<Rightarrow> datetime \<Rightarrow> error + int" where
  "datetime_sub (Aware a) (Aware b) = Inr (a - b)"
| "datetime_sub (Naive a) (Naive b) = Inr (a - b)"
| "datetime_sub (Aware a) (Naive b) = Inl TypeError"
| "datetime_sub (Naive a) (Aware b) = Inl TypeError"

text \<open>Reading the attribute \<^verbatim>\<open>self.timeout\<close>; \<open>None\<close> while it has not been assigned.\<close>

definition self_timeout_attr :: "real option \<Rightarrow> error + real" where
  "self_timeout_attr t = (case t of None \<Rightarrow> Inl AttributeError | Some x \<Rightarrow> Inr x)"

text \<open>
  \<^verbatim>\<open>_convert_delay(self, delay)\<close>, lines 41-50. \<open>self_timeout\<close> is the attribute
  \<^verbatim>\<open>self.timeout\<close> and \<open>now\<close> is the reading of \<^verbatim>\<open>datetime.now(tz=timezone.utc)\<close> in
  microseconds. The handler of \<^verbatim>\<open>except ValueError\<close> evaluates
  \<^verbatim>\<open>datetime.utcnow - delay\<close>, a builtin method minus a \<^verbatim>\<open>datetime\<close>, which raises
  \<^verbatim>\<open>TypeError\<close>; any other exception of the \<^verbatim>\<open>try\<close> body propagates.
\<close>

fun convert_delay :: "real option \<Rightarrow> int \<Rightarrow> delay \<Rightarrow> error + real" where
  "convert_delay self_timeout now (Timedelta us) = Inr (total_seconds us)"
| "convert_delay self_timeout now (Datetime d) =
     (case datetime_sub (Aware now) d of
        Inr td \<Rightarrow> Inr (total_seconds td)
      | Inl ValueError \<Rightarrow> Inl TypeError
      | Inl e \<Rightarrow> Inl e)"
| "convert_delay self_timeout now (Number n) =
     (if n \<noteq> 0 then Inr n else self_timeout_attr self_timeout)"
| "convert_delay self_timeout now NoDelay = self_timeout_attr self_timeout"

subsection \<open>The cache and its tasks\<close>

text \<open>
  A task created by \<^verbatim>\<open>loop.create_task(self._timed_del(key, timeout=...))\<close>: the key
  it will pop, the seconds it sleeps, and its state. \<^verbatim>\<open>Task.cancel()\<close> on a task
  that is not done makes the loop throw \<^verbatim>\<open>CancelledError\<close> into it at its next step,
  so a cancelled task never gets past its \<^verbatim>\<open>await\<close>.
\<close>

datatype status = Pending | Cancelled | Finished | Failed error

record task =
  t_key :: pyval
  t_delay :: real
  t_status :: status

text \<open>
  The object after \<^verbatim>\<open>__init__\<close>: \<open>timeout\<close>, the tasks it has created on its loop in
  creation order (a task handle is its index), and \<open>storage\<close>, a \<^verbatim>\<open>dict\<close> in insertion
  order from key to \<^verbatim>\<open>(value, task)\<close>.
\<close>

record timed_cache =
  timeout :: real
  loop :: "task list"
  storage :: "(pyval \<times> pyval \<times> nat) list"

text \<open>
  \<^verbatim>\<open>__init__(self, *, timeout=600, loop=None)\<close>, lines 52-57. The argument is \<open>None\<close>
  when the caller leaves \<^verbatim>\<open>timeout\<close> out. \<^verbatim>\<open>self.timeout\<close> is not assigned yet when
  \<^verbatim>\<open>_convert_delay\<close> runs.
\<close>

definition init :: "int \<Rightarrow> delay option \<Rightarrow> error + timed_cache" where
  "init now arg =
     (let timeout_arg = (case arg of None \<Rightarrow> Number 600 | Some d \<Rightarrow> d)
      in case convert_delay None now timeout_arg of
           Inl e \<Rightarrow> Inl e
         | Inr t \<Rightarrow> Inr \<lparr>timeout = t, loop = [], storage = []\<rparr>)"

text \<open>\<^verbatim>\<open>Task.cancel()\<close>: no effect on a task that is done.\<close>

definition cancel :: "nat \<Rightarrow> task list \<Rightarrow> task list" where
  "cancel t ts =
     (if t < length ts \<and> t_status (ts ! t) = Pending
      then ts[t := (ts ! t)\<lparr>t_status := Cancelled\<rparr>] else ts)"

text \<open>
  \<^verbatim>\<open>create_task(self._timed_del(key, timeout=n))\<close>: the coroutine of line 61 sleeps
  \<^verbatim>\<open>timeout or self.timeout\<close> seconds.
\<close>

definition create_task :: "pyval \<Rightarrow> real \<Rightarrow> timed_cache \<Rightarrow> task" where
  "create_task key n self =
     \<lparr>t_key = key, t_delay = (if n \<noteq> 0 then n else timeout self), t_status = Pending\<rparr>"

text \<open>Lines 64-65 of \<^verbatim>\<open>__setitem__\<close>: pop the old entry, then cancel its task.\<close>

definition setitem_pop_old :: "pyval \<Rightarrow> timed_cache \<Rightarrow> timed_cache" where
  "setitem_pop_old key self =
     (case map_of (storage self) key of
        None \<Rightarrow> self
      | Some old_val \<Rightarrow>
          self\<lparr>storage := AList.delete key (storage self),
               loop := cancel (snd old_val) (loop self)\<rparr>)"

text \<open>Lines 67-68 of \<^verbatim>\<open>__setitem__\<close> once the delay is converted: create the task, store the pair.\<close>

definition setitem_install :: "pyval \<Rightarrow> pyval \<Rightarrow> real \<Rightarrow> timed_cache \<Rightarrow> timed_cache" where
  "setitem_install key val n self =
     self\<lparr>loop := loop self @ [create_task key n self],
          storage := AList.update key (val, length (loop self)) (storage self)\<rparr>"

text \<open>
  \<^verbatim>\<open>__setitem__(self, key, value, *, timeout=None)\<close>, lines 63-68. An exception of
  \<^verbatim>\<open>_convert_delay\<close> leaves the old entry popped and cancelled.
\<close>

definition setitem ::
  "int \<Rightarrow> pyval \<Rightarrow> pyval \<Rightarrow> delay \<Rightarrow> timed_cache \<Rightarrow> (error + unit) \<times> timed_cache" where
  "setitem now key val tm self =
     (let s1 = setitem_pop_old key self
      in case convert_delay (Some (timeout s1)) now tm of
           Inl e \<Rightarrow> (Inl e, s1)
         | Inr n \<Rightarrow> (Inr (), setitem_install key val n s1))"

text \<open>Line 71 of \<^verbatim>\<open>__delitem__\<close>, for a key that is present.\<close>

definition delitem_cancel :: "pyval \<Rightarrow> timed_cache \<Rightarrow> timed_cache" where
  "delitem_cancel key self =
     (case map_of (storage self) key of
        None \<Rightarrow> self
      | Some e \<Rightarrow> self\<lparr>loop := cancel (snd e) (loop self)\<rparr>)"

text \<open>\<^verbatim>\<open>__delitem__(self, key)\<close>, lines 70-72: \<^verbatim>\<open>self.storage[key]\<close> raises \<^verbatim>\<open>KeyError\<close> first.\<close>

definition delitem :: "pyval \<Rightarrow> timed_cache \<Rightarrow> (error + unit) \<times> timed_cache" where
  "delitem key self =
     (case map_of (storage self) key of
        None \<Rightarrow> (Inl (KeyError key), self)
      | Some e \<Rightarrow>
          (let s1 = delitem_cancel key self
           in (Inr (), s1\<lparr>storage := AList.delete key (storage s1)\<rparr>)))"

text \<open>
  \<^verbatim>\<open>get(self, key, default=None)\<close>, lines 74-77: \<^verbatim>\<open>value\<close> is the stored pair or the
  default itself, and \<^verbatim>\<open>value[0]\<close> is taken whenever \<^verbatim>\<open>value\<close> is truthy.
\<close>

definition get :: "timed_cache \<Rightarrow> pyval \<Rightarrow> pyval \<Rightarrow> error + pyval" where
  "get self key dflt =
     (let val = (case map_of (storage self) key of
                   Some (v, t) \<Rightarrow> PTuple [v, PTask t]
                 | None \<Rightarrow> dflt)
      in if truthy val then subscript val 0 else Inr dflt)"

text \<open>\<^verbatim>\<open>__getitem__(self, key)\<close>, lines 85-86.\<close>

definition getitem :: "timed_cache \<Rightarrow> pyval \<Rightarrow> error + pyval" where
  "getitem self key =
     (case map_of (storage self) key of
        None \<Rightarrow> Inl (KeyError key)
      | Some (v, t) \<Rightarrow> Inr v)"

text \<open>
  \<^verbatim>\<open>set(self, key, value, timeout=None)\<close>, lines 79-83: the delay is converted here and
  once more inside \<^verbatim>\<open>__setitem__\<close>.
\<close>

definition set_cache ::
  "int \<Rightarrow> pyval \<Rightarrow> pyval \<Rightarrow> delay \<Rightarrow> timed_cache \<Rightarrow> (error + pyval) \<times> timed_cache" where
  "set_cache now key val tm self =
     (case convert_delay (Some (timeout self)) now tm of
        Inl e \<Rightarrow> (Inl e, self)
      | Inr n \<Rightarrow>
          (case setitem now key val (Number n) self of
             (Inl e, s) \<Rightarrow> (Inl e, s)
           | (Inr u, s) \<Rightarrow> (Inr val, s)))"

text \<open>
  \<^verbatim>\<open>__iter__(self)\<close>, lines 88-89: the comprehension builds a fresh \<^verbatim>\<open>dict\<close> from key to
  value, and \<^verbatim>\<open>iter\<close> of a \<^verbatim>\<open>dict\<close> runs over its keys.
\<close>

definition iter_snapshot :: "timed_cache \<Rightarrow> (pyval \<times> pyval) list" where
  "iter_snapshot self = foldl (\<lambda>d (k, v). AList.update k (fst v) d) [] (storage self)"

definition iter :: "timed_cache \<Rightarrow> pyval list" where
  "iter self = map fst (iter_snapshot self)"

text \<open>\<^verbatim>\<open>__len__(self)\<close>, lines 91-92.\<close>

definition len :: "timed_cache \<Rightarrow> nat" where
  "len self = length (storage self)"

subsection \<open>The event loop waking a task\<close>

text \<open>
  The rest of \<^verbatim>\<open>_timed_del\<close> (line 61) once the sleep returns the key:
  \<^verbatim>\<open>self.storage.pop(key)\<close> with no default, so a missing key raises \<^verbatim>\<open>KeyError\<close>
  inside the task.
\<close>

definition timed_del_wake :: "nat \<Rightarrow> timed_cache \<Rightarrow> timed_cache" where
  "timed_del_wake t self =
     (let key = t_key (loop self ! t)
      in case map_of (storage self) key of
           None \<Rightarrow> self\<lparr>loop := (loop self)[t := (loop self ! t)\<lparr>t_status := Failed (KeyError key)\<rparr>]\<rparr>
         | Some e \<Rightarrow>
             self\<lparr>storage := AList.delete key (storage self),
                  loop := (loop self)[t := (loop self ! t)\<lparr>t_status := Finished\<rparr>]\<rparr>)"

text \<open>
  The timer of task \<open>t\<close> expires. Only a pending task resumes after its sleep; a
  cancelled task gets \<^verbatim>\<open>CancelledError\<close> instead and a done task does not run.
\<close>

definition fire :: "nat \<Rightarrow> timed_cache \<Rightarrow> timed_cache" where
  "fire t self =
     (if t < length (loop self) \<and> t_status (loop self ! t) = Pending
      then timed_del_wake t self else self)"

subsection \<open>Histories\<close>

text \<open>
  What can happen to a cache: a call of a mutating method (with the clock reading it
  sees) or the expiry of a timer. An exception of a call leaves the state the call
  had reached.
\<close>

datatype event =
    SetItem int pyval pyval delay
  | SetCall int pyval pyval delay
  | DelItem pyval
  | Fire nat

fun exec :: "event \<Rightarrow> timed_cache \<Rightarrow> timed_cache" where
  "exec (SetItem now k v tm) self = snd (setitem now k v tm self)"
| "exec (SetCall now k v tm) self = snd (set_cache now k v tm self)"
| "exec (DelItem k) self = snd (delitem k self)"
| "exec (Fire t) self = fire t self"

definition run :: "event list \<Rightarrow> timed_cache \<Rightarrow> timed_cache" where
  "run evs self = foldl (\<lambda>s ev. exec ev s) self evs"

text \<open>The handles of the tasks that are still pending for a key.\<close>

definition live_timers :: "timed_cache \<Rightarrow> pyval \<Rightarrow> nat list" where
  "live_timers self key =
     filter (\<lambda>t. t_status (loop self ! t) = Pending \<and> t_key (loop self ! t) = key)
       [0..<length (loop self)]"


text \<open>
  A loop \<^verbatim>\<open>for x in it\<close> over an iterator whose body lets one event happen to the
  cache after each item, as long as there are events: the items the loop sees.
\<close>

fun consume :: "pyval list \<Rightarrow> event list \<Rightarrow> timed_cache \<Rightarrow> pyval list" where
  "consume [] evs self = []"
| "consume (x # it) [] self = x # consume it [] self"
| "consume (x # it) (ev # evs) self = x # consume it evs (exec ev self)"

subsection \<open>The invariant of the histories\<close>

text \<open>
  The keys of \<open>storage\<close> are distinct; the task stored with a key exists, is for that
  key and is pending; a pending task is the one stored with its key; no task has
  failed.
\<close>

definition wf :: "timed_cache \<Rightarrow> bool" where
  "wf self \<longleftrightarrow>
     distinct (map fst (storage self))
   \<and> (\<forall>k v t. map_of (storage self) k = Some (v, t) \<longrightarrow>
        t < length (loop self) \<and> t_key (loop self ! t) = k \<and> t_status (loop self ! t) = Pending)
   \<and> (\<forall>t < length (loop self). t_status (loop self ! t) = Pending \<longrightarrow>
        (\<exists>v. map_of (storage self) (t_key (loop self ! t)) = Some (v, t)))
   \<and> (\<forall>t < length (loop self). \<forall>e. t_status (loop self ! t) \<noteq> Failed e)"

text \<open>
  What a history keeps of a task: it stays in the loop with its key and its delay, and
  once cancelled it stays cancelled.
\<close>

definition kept :: "task list \<Rightarrow> task list \<Rightarrow> nat \<Rightarrow> bool" where
  "kept L L' t \<longleftrightarrow>
     t < length L' \<and> t_key (L' ! t) = t_key (L ! t) \<and> t_delay (L' ! t) = t_delay (L ! t)
   \<and> (t_status (L ! t) = Cancelled \<longrightarrow> t_status (L' ! t) = Cancelled)"

section \<open>Properties\<close>

lemmas cache_defs =
  init_def run_def setitem_def setitem_pop_old_def setitem_install_def create_task_def
  self_timeout_attr_def set_cache_def delitem_def delitem_cancel_def cancel_def fire_def
  timed_del_wake_def total_seconds_def Let_def


subsection \<open>The invariant holds in every history\<close>

lemma wf_init: "init now arg = Inr c \<Longrightarrow> wf c"
  by (auto simp: init_def wf_def Let_def split: sum.splits)

lemma task_key_upd:
  "i < length L \<Longrightarrow> t_key (L[t := (L ! t)\<lparr>t_status := st\<rparr>] ! i) = t_key (L ! i)"
  by (cases "i = t") simp_all

lemma task_status_upd:
  "i < length L \<Longrightarrow>
   t_status (L[t := (L ! t)\<lparr>t_status := st\<rparr>] ! i) = (if i = t then st else t_status (L ! i))"
  by (cases "i = t") simp_all

lemma wf_retire:
  assumes "wf self" and "map_of (storage self) k = Some (v, t)"
    and "st = Cancelled \<or> st = Finished"
  shows "wf (self\<lparr>storage := AList.delete k (storage self),
                  loop := (loop self)[t := (loop self ! t)\<lparr>t_status := st\<rparr>]\<rparr>)"
proof -
  let ?L = "loop self" and ?S = "storage self"
  let ?L' = "?L[t := (?L ! t)\<lparr>t_status := st\<rparr>]"
  from assms have d: "distinct (map fst ?S)"
    and own: "\<And>k' v' t'. map_of ?S k' = Some (v', t') \<Longrightarrow>
        t' < length ?L \<and> t_key (?L ! t') = k' \<and> t_status (?L ! t') = Pending"
    and pend: "\<And>t'. t' < length ?L \<Longrightarrow> t_status (?L ! t') = Pending \<Longrightarrow>
        \<exists>v'. map_of ?S (t_key (?L ! t')) = Some (v', t')"
    and nofail: "\<And>t' e. t' < length ?L \<Longrightarrow> t_status (?L ! t') \<noteq> Failed e"
    by (auto simp: wf_def)
  from own[OF assms(2)] have t: "t < length ?L" "t_key (?L ! t) = k" by auto
  note key = task_key_upd and stat = task_status_upd
  have 1: "distinct (map fst (AList.delete k ?S))"
    using d by (rule distinct_delete)
  have 2: "\<And>k' v' t'. map_of (AList.delete k ?S) k' = Some (v', t') \<Longrightarrow>
        t' < length ?L' \<and> t_key (?L' ! t') = k' \<and> t_status (?L' ! t') = Pending"
  proof -
    fix k' v' t' assume a: "map_of (AList.delete k ?S) k' = Some (v', t')"
    then have ne: "k' \<noteq> k" by (auto simp: delete_conv' split: if_splits)
    with a have "map_of ?S k' = Some (v', t')" by (simp add: delete_conv')
    from own[OF this] have o: "t' < length ?L" "t_key (?L ! t') = k'" "t_status (?L ! t') = Pending"
      by auto
    with ne t have "t' \<noteq> t" by auto
    with o show "t' < length ?L' \<and> t_key (?L' ! t') = k' \<and> t_status (?L' ! t') = Pending"
      by (simp add: key stat)
  qed
  have 3: "\<And>t'. t' < length ?L' \<Longrightarrow> t_status (?L' ! t') = Pending \<Longrightarrow>
        \<exists>v'. map_of (AList.delete k ?S) (t_key (?L' ! t')) = Some (v', t')"
  proof -
    fix t' assume a: "t' < length ?L'" "t_status (?L' ! t') = Pending"
    then have lt: "t' < length ?L" by simp
    from a assms(3) have ne: "t' \<noteq> t" by (auto simp: stat lt)
    with a lt have "t_status (?L ! t') = Pending" by (simp add: stat)
    from pend[OF lt this] obtain v' where m: "map_of ?S (t_key (?L ! t')) = Some (v', t')" ..
    have "t_key (?L ! t') \<noteq> k"
    proof
      assume "t_key (?L ! t') = k"
      with m assms(2) ne show False by simp
    qed
    with m show "\<exists>v'. map_of (AList.delete k ?S) (t_key (?L' ! t')) = Some (v', t')"
      by (simp add: key lt delete_conv')
  qed
  have 4: "\<And>t' e. t' < length ?L' \<Longrightarrow> t_status (?L' ! t') \<noteq> Failed e"
    using nofail assms(3) by (auto simp: stat)
  show ?thesis
    unfolding wf_def using 1 2 3 4 by simp
qed


lemma cancel_pending:
  "t < length L \<Longrightarrow> t_status (L ! t) = Pending \<Longrightarrow>
   cancel t L = L[t := (L ! t)\<lparr>t_status := Cancelled\<rparr>]"
  by (simp add: cancel_def)

lemma wf_entry:
  "wf self \<Longrightarrow> map_of (storage self) k = Some (v, t) \<Longrightarrow>
   t < length (loop self) \<and> t_key (loop self ! t) = k \<and> t_status (loop self ! t) = Pending"
  unfolding wf_def by blast

lemma pop_old_absent:
  "map_of (storage self) k = None \<Longrightarrow> setitem_pop_old k self = self"
  by (simp add: setitem_pop_old_def)

lemma pop_old_present:
  "wf self \<Longrightarrow> map_of (storage self) k = Some (v, t) \<Longrightarrow>
   setitem_pop_old k self =
     self\<lparr>storage := AList.delete k (storage self),
          loop := (loop self)[t := (loop self ! t)\<lparr>t_status := Cancelled\<rparr>]\<rparr>"
  using wf_entry[of self k v t] by (simp add: setitem_pop_old_def cancel_pending)

lemma wf_pop_old: "wf self \<Longrightarrow> wf (setitem_pop_old k self)"
proof (cases "map_of (storage self) k")
  case None
  assume "wf self"
  with None show ?thesis by (simp add: pop_old_absent)
next
  case (Some e)
  assume w: "wf self"
  obtain v t where "e = (v, t)" by (cases e)
  with Some have m: "map_of (storage self) k = Some (v, t)" by simp
  show ?thesis
    unfolding pop_old_present[OF w m] by (rule wf_retire[OF w m]) simp
qed

lemma pop_old_key_gone: "map_of (storage (setitem_pop_old k self)) k = None"
  by (simp add: setitem_pop_old_def delete_conv' split: option.splits)

lemma pop_old_timeout: "timeout (setitem_pop_old k self) = timeout self"
  by (simp add: setitem_pop_old_def split: option.splits)

lemma wf_install:
  assumes "wf self" and "map_of (storage self) k = None"
  shows "wf (setitem_install k v n self)"
proof -
  let ?L = "loop self" and ?S = "storage self"
  let ?new = "create_task k n self"
  let ?L' = "?L @ [?new]" and ?S' = "AList.update k (v, length ?L) ?S"
  from assms(1) have d: "distinct (map fst ?S)"
    and own: "\<And>k' v' t'. map_of ?S k' = Some (v', t') \<Longrightarrow>
        t' < length ?L \<and> t_key (?L ! t') = k' \<and> t_status (?L ! t') = Pending"
    and pend: "\<And>t'. t' < length ?L \<Longrightarrow> t_status (?L ! t') = Pending \<Longrightarrow>
        \<exists>v'. map_of ?S (t_key (?L ! t')) = Some (v', t')"
    and nofail: "\<And>t' e. t' < length ?L \<Longrightarrow> t_status (?L ! t') \<noteq> Failed e"
    by (auto simp: wf_def)
  have new: "t_key ?new = k" "t_status ?new = Pending"
    by (simp_all add: create_task_def)
  have 1: "distinct (map fst ?S')"
    using d by (rule distinct_update)
  have 2: "t' < length ?L' \<and> t_key (?L' ! t') = k' \<and> t_status (?L' ! t') = Pending"
    if a: "map_of ?S' k' = Some (v', t')" for k' v' t'
  proof (cases "k' = k")
    case True
    with a have "t' = length ?L" by (simp add: update_conv')
    with True new show ?thesis by simp
  next
    case False
    with a have "map_of ?S k' = Some (v', t')" by (simp add: update_conv')
    from own[OF this] show ?thesis by (simp add: nth_append)
  qed
  have 3: "\<exists>v'. map_of ?S' (t_key (?L' ! t')) = Some (v', t')"
    if a: "t' < length ?L'" "t_status (?L' ! t') = Pending" for t'
  proof (cases "t' = length ?L")
    case True
    with new show ?thesis by (simp add: update_conv')
  next
    case False
    with a have lt: "t' < length ?L" by simp
    with a have "t_status (?L ! t') = Pending" by (simp add: nth_append)
    from pend[OF lt this] obtain v' where m: "map_of ?S (t_key (?L ! t')) = Some (v', t')" ..
    with assms(2) have "t_key (?L ! t') \<noteq> k" by auto
    with m lt show ?thesis by (simp add: update_conv' nth_append)
  qed
  have 4: "t_status (?L' ! t') \<noteq> Failed e" if "t' < length ?L'" for t' e
  proof (cases "t' = length ?L")
    case True
    with new show ?thesis by simp
  next
    case False
    with that have lt: "t' < length ?L" by simp
    with nofail[OF lt] show ?thesis by (simp add: nth_append)
  qed
  show ?thesis
    unfolding wf_def setitem_install_def using 1 2 3 4 by simp
qed

lemma wf_setitem: "wf self \<Longrightarrow> wf (snd (setitem now k v tm self))"
  by (auto simp: setitem_def Let_def wf_pop_old wf_install pop_old_key_gone split: sum.splits)

lemma wf_set_cache: "wf self \<Longrightarrow> wf (snd (set_cache now k v tm self))"
proof -
  assume w: "wf self"
  show ?thesis
  proof (cases "convert_delay (Some (timeout self)) now tm")
    case (Inl e)
    with w show ?thesis by (simp add: set_cache_def)
  next
    case (Inr n)
    have "snd (set_cache now k v tm self) = snd (setitem now k v (Number n) self)"
      using Inr by (simp add: set_cache_def split: prod.splits sum.splits)
    with wf_setitem[OF w] show ?thesis by simp
  qed
qed

lemma delitem_state:
  "snd (delitem k self) = setitem_pop_old k self"
  by (simp add: delitem_def delitem_cancel_def setitem_pop_old_def Let_def split: option.splits)

lemma wf_delitem: "wf self \<Longrightarrow> wf (snd (delitem k self))"
  by (simp add: delitem_state wf_pop_old)

lemma wf_pending:
  "wf self \<Longrightarrow> t < length (loop self) \<Longrightarrow> t_status (loop self ! t) = Pending \<Longrightarrow>
   \<exists>v. map_of (storage self) (t_key (loop self ! t)) = Some (v, t)"
  unfolding wf_def by blast

lemma fire_pending:
  assumes "wf self" and "t < length (loop self)" and "t_status (loop self ! t) = Pending"
  shows "fire t self =
     self\<lparr>storage := AList.delete (t_key (loop self ! t)) (storage self),
          loop := (loop self)[t := (loop self ! t)\<lparr>t_status := Finished\<rparr>]\<rparr>"
proof -
  from wf_pending[OF assms] obtain v
    where "map_of (storage self) (t_key (loop self ! t)) = Some (v, t)" ..
  with assms(2,3) show ?thesis by (simp add: fire_def timed_del_wake_def)
qed

lemma fire_not_pending:
  "\<not> (t < length (loop self) \<and> t_status (loop self ! t) = Pending) \<Longrightarrow> fire t self = self"
  by (auto simp: fire_def)

lemma wf_fire: "wf self \<Longrightarrow> wf (fire t self)"
proof (cases "t < length (loop self) \<and> t_status (loop self ! t) = Pending")
  case True
  assume w: "wf self"
  from True have lt: "t < length (loop self)" and p: "t_status (loop self ! t) = Pending" by auto
  from wf_pending[OF w lt p] obtain v
    where m: "map_of (storage self) (t_key (loop self ! t)) = Some (v, t)" ..
  show ?thesis
    unfolding fire_pending[OF w lt p] by (rule wf_retire[OF w m]) simp
next
  case False
  assume "wf self"
  with False show ?thesis by (simp add: fire_not_pending)
qed

lemma wf_exec: "wf self \<Longrightarrow> wf (exec ev self)"
  by (cases ev) (simp_all add: wf_setitem wf_set_cache wf_delitem wf_fire)

lemma wf_run: "wf self \<Longrightarrow> wf (run evs self)"
  unfolding run_def by (induction evs arbitrary: self) (simp_all add: wf_exec)

lemma wf_reachable: "init now arg = Inr c0 \<Longrightarrow> wf (run evs c0)"
  by (rule wf_run) (rule wf_init)


lemma kept_refl: "t < length L \<Longrightarrow> kept L L t"
  by (simp add: kept_def)

lemma kept_trans: "kept L L' t \<Longrightarrow> kept L' L'' t \<Longrightarrow> kept L L'' t"
  by (simp add: kept_def)

lemma kept_status_upd:
  "t < length L \<Longrightarrow> t_status (L ! t') = Pending \<Longrightarrow>
   kept L (L[t' := (L ! t')\<lparr>t_status := st\<rparr>]) t"
  by (cases "t = t'") (simp_all add: kept_def)

lemma kept_cancel: "t < length L \<Longrightarrow> kept L (cancel t' L) t"
  by (simp add: cancel_def kept_status_upd kept_refl)

lemma kept_pop_old: "t < length (loop self) \<Longrightarrow> kept (loop self) (loop (setitem_pop_old k self)) t"
  by (simp add: setitem_pop_old_def kept_cancel kept_refl split: option.splits)

lemma kept_install:
  "t < length (loop self) \<Longrightarrow> kept (loop self) (loop (setitem_install k v n self)) t"
  by (simp add: setitem_install_def kept_def nth_append)

lemma kept_setitem:
  assumes "t < length (loop self)"
  shows "kept (loop self) (loop (snd (setitem now k v tm self))) t"
proof -
  have p: "kept (loop self) (loop (setitem_pop_old k self)) t"
    using assms by (rule kept_pop_old)
  then have "t < length (loop (setitem_pop_old k self))" by (simp add: kept_def)
  then have "kept (loop (setitem_pop_old k self))
      (loop (setitem_install k v n (setitem_pop_old k self))) t" for n
    by (rule kept_install)
  with p have "kept (loop self) (loop (setitem_install k v n (setitem_pop_old k self))) t" for n
    by (rule kept_trans)
  with p show ?thesis by (simp add: setitem_def Let_def split: sum.splits)
qed

lemma set_cache_state:
  "snd (set_cache now k v tm self) =
     (case convert_delay (Some (timeout self)) now tm of
        Inl e \<Rightarrow> self
      | Inr n \<Rightarrow> snd (setitem now k v (Number n) self))"
  by (simp add: set_cache_def split: sum.splits prod.splits)

lemma kept_set_cache:
  "t < length (loop self) \<Longrightarrow> kept (loop self) (loop (snd (set_cache now k v tm self))) t"
  by (simp add: set_cache_state kept_setitem kept_refl split: sum.splits)

lemma kept_fire: "t < length (loop self) \<Longrightarrow> kept (loop self) (loop (fire t' self)) t"
  by (simp add: fire_def timed_del_wake_def Let_def kept_status_upd kept_refl split: option.splits)

lemma kept_exec: "t < length (loop self) \<Longrightarrow> kept (loop self) (loop (exec ev self)) t"
  by (cases ev) (simp_all add: kept_setitem kept_set_cache delitem_state kept_pop_old kept_fire)

lemma kept_run: "t < length (loop self) \<Longrightarrow> kept (loop self) (loop (run evs self)) t"
  unfolding run_def
proof (induction evs arbitrary: self)
  case Nil
  then show ?case by (simp add: kept_refl)
next
  case (Cons ev evs)
  have e: "kept (loop self) (loop (exec ev self)) t"
    using Cons.prems by (rule kept_exec)
  then have "t < length (loop (exec ev self))" by (simp add: kept_def)
  from kept_trans[OF e Cons.IH[OF this]] show ?case by simp
qed

lemma run_keeps:
  "t < length (loop self) \<Longrightarrow> t_status (loop self ! t) = Cancelled \<Longrightarrow>
   t < length (loop (run evs self)) \<and> t_status (loop (run evs self) ! t) = Cancelled"
  using kept_run[of t self evs] by (simp add: kept_def)

lemma pop_old_cancels:
  assumes "wf self" and "map_of (storage self) k = Some (v, t)"
  shows "t < length (loop (setitem_pop_old k self))
   \<and> t_status (loop (setitem_pop_old k self) ! t) = Cancelled"
  using wf_entry[OF assms] by (simp add: pop_old_present[OF assms])


subsection \<open>Timeout conversion and construction\<close>

lemma convert_delay_timedelta:
  "convert_delay st now (Timedelta us) = Inr (total_seconds us)"
  by simp

lemma convert_delay_aware:
  "convert_delay st now (Datetime (Aware t)) = Inr (total_seconds (now - t))"
  by simp

lemma convert_delay_fallback:
  "convert_delay (Some d) now NoDelay = Inr d"
  "convert_delay (Some d) now (Number 0) = Inr d"
  by (simp_all add: self_timeout_attr_def)

lemma convert_delay_number:
  "n \<noteq> 0 \<Longrightarrow> convert_delay st now (Number n) = Inr n"
  by simp

lemma convert_delay_errors:
  "convert_delay st now d = Inl e \<Longrightarrow> e = TypeError \<or> e = AttributeError"
proof (cases d)
  case (Datetime dt)
  assume "convert_delay st now d = Inl e"
  with Datetime show ?thesis by (cases dt) auto
qed (auto simp: self_timeout_attr_def split: if_splits option.splits)

lemma init_omitted:
  "init now None = Inr \<lparr>timeout = 600, loop = [], storage = []\<rparr>"
  by (simp add: init_def)

text \<open>
  C4, as amended. The class has no check of the sign and no configuration error:
  construction succeeds whenever the conversion of the timeout returns a number,
  and stores that number. So every non-zero number of seconds, negative or not,
  every \<^verbatim>\<open>timedelta\<close> and every timezone-aware \<^verbatim>\<open>datetime\<close> is accepted.
\<close>

theorem init_accepts_any_sign:
  "(convert_delay None now d = Inr s \<longrightarrow>
      init now (Some d) = Inr \<lparr>timeout = s, loop = [], storage = []\<rparr>)
   \<and> (n \<noteq> 0 \<longrightarrow> init now (Some (Number n)) = Inr \<lparr>timeout = n, loop = [], storage = []\<rparr>)
   \<and> init now (Some (Timedelta us)) = Inr \<lparr>timeout = total_seconds us, loop = [], storage = []\<rparr>
   \<and> init now (Some (Datetime (Aware t)))
       = Inr \<lparr>timeout = total_seconds (now - t), loop = [], storage = []\<rparr>"
  by (simp add: init_def)

theorem init_accepts_any_sign_witness:
  "convert_delay None 0 (Timedelta (- 2500000)) = Inr (- 5 / 2)
   \<and> init 0 (Some (Timedelta (- 2500000))) = Inr \<lparr>timeout = - 5 / 2, loop = [], storage = []\<rparr>
   \<and> (- 5 :: real) \<noteq> 0
   \<and> init 0 (Some (Number (- 5))) = Inr \<lparr>timeout = - 5, loop = [], storage = []\<rparr>"
  using init_accepts_any_sign [of 0 "Timedelta (- 2500000)" "- 5 / 2" "- 5" 0 0]
  by (simp add: total_seconds_def)

text \<open>
  C4, as the claim states it, fails: the timeout \<open>-5\<close> converts to the negative
  number \<open>-5\<close>, and construction succeeds with it.
\<close>

theorem init_negative_timeout_counterexample:
  "convert_delay None 0 (Number (- 5)) = Inr (- 5) \<and> (- 5 :: real) < 0
   \<and> init 0 (Some (Number (- 5))) = Inr \<lparr>timeout = - 5, loop = [], storage = []\<rparr>"
  by (simp add: init_def)

text \<open>
  C5: the conversion of a naive \<^verbatim>\<open>datetime\<close> does not fall back to a naive comparison.
  The subtraction from the aware \<^verbatim>\<open>datetime.now(tz=timezone.utc)\<close> raises
  \<^verbatim>\<open>TypeError\<close>, which \<^verbatim>\<open>except ValueError\<close> does not catch, so the call raises. The
  other parts of the claim hold (\<open>convert_delay_timedelta\<close>, \<open>convert_delay_aware\<close>,
  \<open>convert_delay_fallback\<close>, \<open>convert_delay_number\<close>).
\<close>

theorem convert_delay_naive_raises:
  "convert_delay st now (Datetime (Naive t)) = Inl TypeError"
  by simp

text \<open>
  C6: constructing with the timeout \<open>0\<close> or \<^verbatim>\<open>None\<close> does not fall back to 600. The
  fallback \<^verbatim>\<open>delay or self.timeout\<close> reads \<^verbatim>\<open>self.timeout\<close> before \<^verbatim>\<open>__init__\<close> has
  assigned it, and the construction raises \<^verbatim>\<open>AttributeError\<close>. Only a call that
  leaves the argument out gets 600 (\<open>init_omitted\<close>).
\<close>

theorem init_zero_or_None_raises:
  "init now (Some (Number 0)) = Inl AttributeError \<and> init now (Some NoDelay) = Inl AttributeError"
  by (simp add: init_def self_timeout_attr_def)

subsection \<open>Lookups\<close>

lemma getitem_present:
  "map_of (storage self) key = Some (v, t) \<Longrightarrow> getitem self key = Inr v"
  by (simp add: getitem_def)

lemma getitem_absent_iff:
  "getitem self key = Inl (KeyError key) \<longleftrightarrow> map_of (storage self) key = None"
  by (auto simp: getitem_def split: option.splits)

lemma get_absent_falsy_default:
  "map_of (storage self) key = None \<Longrightarrow> \<not> truthy dflt \<Longrightarrow> get self key dflt = Inr dflt"
  by (simp add: get_def)

text \<open>
  C3: \<^verbatim>\<open>get\<close> with an absent key and a truthy default does not return the default. The
  default takes the place of the stored pair in \<^verbatim>\<open>value\<close>, and \<^verbatim>\<open>value[0]\<close> is taken
  of it: on the empty cache \<^verbatim>\<open>get("missing", 5)\<close> raises \<^verbatim>\<open>TypeError\<close> and
  \<^verbatim>\<open>get("missing", "abc")\<close> returns \<^verbatim>\<open>"a"\<close>.
\<close>

theorem get_truthy_default_raises:
  "get \<lparr>timeout = 600, loop = [], storage = []\<rparr> (PStr ''missing'') (PInt 5) = Inl TypeError
   \<and> get \<lparr>timeout = 600, loop = [], storage = []\<rparr> (PStr ''missing'') (PStr ''abc'')
       = Inr (PStr ''a'')"
  by (simp add: get_def)

text \<open>
  C9, as amended. \<^verbatim>\<open>get\<close> returns the stored value of every key that is present,
  whatever the value: the truth test is on the stored pair \<^verbatim>\<open>(value, task)\<close>, and a
  pair is never falsy.
\<close>

theorem get_present_returns_value:
  "map_of (storage self) key = Some (v, t) \<Longrightarrow> get self key dflt = Inr v"
  by (simp add: get_def)

theorem get_present_returns_value_witness:
  "map_of (storage \<lparr>timeout = 600,
      loop = [\<lparr>t_key = PStr ''k'', t_delay = 600, t_status = Pending\<rparr>],
      storage = [(PStr ''k'', PStr [], 0)]\<rparr>) (PStr ''k'') = Some (PStr [], 0)
   \<and> get \<lparr>timeout = 600,
      loop = [\<lparr>t_key = PStr ''k'', t_delay = 600, t_status = Pending\<rparr>],
      storage = [(PStr ''k'', PStr [], 0)]\<rparr> (PStr ''k'') (PStr ''default'') = Inr (PStr [])"
  using get_present_returns_value
    [of "\<lparr>timeout = 600,
      loop = [\<lparr>t_key = PStr ''k'', t_delay = 600, t_status = Pending\<rparr>],
      storage = [(PStr ''k'', PStr [], 0)]\<rparr>" "PStr ''k''" "PStr []" 0 "PStr ''default''"]
  by simp

text \<open>
  C9, as the claim states it, fails: after \<^verbatim>\<open>cache["k"] = 0\<close> on a new cache,
  \<^verbatim>\<open>get("k", "default")\<close> returns the stored \<open>0\<close>, not the default.
\<close>

theorem get_falsy_value_counterexample:
  "\<not> truthy (PInt 0)
   \<and> get (snd (setitem 0 (PStr ''k'') (PInt 0) NoDelay \<lparr>timeout = 600, loop = [], storage = []\<rparr>))
        (PStr ''k'') (PStr ''default'') = Inr (PInt 0)
   \<and> Inr (PInt 0) \<noteq> (Inr (PStr ''default'') :: error + pyval)"
  by (simp add: get_def setitem_def setitem_pop_old_def setitem_install_def self_timeout_attr_def)

subsection \<open>Deleting\<close>

text \<open>
  C7. In every state a history of the cache can reach: \<^verbatim>\<open>del cache[key]\<close> of an absent
  key raises \<^verbatim>\<open>KeyError\<close> and changes nothing. For a present key, whose task \<open>t\<close> is
  pending, line 71 cancels the task while the entry is still stored, line 72 then
  removes the entry, and whatever happens later the task stays cancelled, so the
  expiry of its timer does nothing.
\<close>

theorem delitem_cancels_then_removes:
  assumes "init now0 arg = Inr c0"
  shows "(map_of (storage (run evs c0)) key = None \<longrightarrow>
            delitem key (run evs c0) = (Inl (KeyError key), run evs c0))
   \<and> (map_of (storage (run evs c0)) key = Some (v, t) \<longrightarrow>
          t_status (loop (run evs c0) ! t) = Pending
        \<and> storage (delitem_cancel key (run evs c0)) = storage (run evs c0)
        \<and> t_status (loop (delitem_cancel key (run evs c0)) ! t) = Cancelled
        \<and> delitem key (run evs c0) =
            (Inr (), (delitem_cancel key (run evs c0))
                       \<lparr>storage := AList.delete key (storage (run evs c0))\<rparr>)
        \<and> map_of (storage (snd (delitem key (run evs c0)))) key = None
        \<and> t_status (loop (run later (snd (delitem key (run evs c0)))) ! t) = Cancelled
        \<and> fire t (run later (snd (delitem key (run evs c0))))
            = run later (snd (delitem key (run evs c0))))"
proof (intro conjI impI)
  let ?s = "run evs c0"
  have w: "wf ?s" using assms by (rule wf_reachable)
  show "delitem key ?s = (Inl (KeyError key), ?s)" if "map_of (storage ?s) key = None"
    using that by (simp add: delitem_def)
  assume m: "map_of (storage ?s) key = Some (v, t)"
  from wf_entry[OF w m] have lt: "t < length (loop ?s)" and p: "t_status (loop ?s ! t) = Pending"
    by auto
  show "t_status (loop ?s ! t) = Pending" by (rule p)
  show "storage (delitem_cancel key ?s) = storage ?s"
    using m by (simp add: delitem_cancel_def)
  show "t_status (loop (delitem_cancel key ?s) ! t) = Cancelled"
    using m lt p by (simp add: delitem_cancel_def cancel_pending)
  show "delitem key ?s =
      (Inr (), (delitem_cancel key ?s)\<lparr>storage := AList.delete key (storage ?s)\<rparr>)"
    using m by (simp add: delitem_def delitem_cancel_def Let_def)
  show "map_of (storage (snd (delitem key ?s))) key = None"
    by (simp add: delitem_state pop_old_key_gone)
  have c: "t < length (loop (snd (delitem key ?s)))
      \<and> t_status (loop (snd (delitem key ?s)) ! t) = Cancelled"
    unfolding delitem_state by (rule pop_old_cancels[OF w m])
  then have r: "t < length (loop (run later (snd (delitem key ?s))))
      \<and> t_status (loop (run later (snd (delitem key ?s))) ! t) = Cancelled"
    using run_keeps by blast
  then show "t_status (loop (run later (snd (delitem key ?s))) ! t) = Cancelled" by simp
  from r show "fire t (run later (snd (delitem key ?s))) = run later (snd (delitem key ?s))"
    by (simp add: fire_def)
qed



theorem delitem_cancels_then_removes_witness:
  "init 0 None = Inr \<lparr>timeout = 600, loop = [], storage = []\<rparr>
   \<and> map_of (storage (run [] \<lparr>timeout = 600, loop = [], storage = []\<rparr>)) (PStr ''a'') = None
   \<and> delitem (PStr ''a'') (run [] \<lparr>timeout = 600, loop = [], storage = []\<rparr>)
       = (Inl (KeyError (PStr ''a'')), \<lparr>timeout = 600, loop = [], storage = []\<rparr>)
   \<and> map_of (storage (run [SetItem 0 (PStr ''a'') (PInt 1) NoDelay]
         \<lparr>timeout = 600, loop = [], storage = []\<rparr>)) (PStr ''a'') = Some (PInt 1, 0)
   \<and> delitem (PStr ''a'') (run [SetItem 0 (PStr ''a'') (PInt 1) NoDelay]
         \<lparr>timeout = 600, loop = [], storage = []\<rparr>)
       = (Inr (), \<lparr>timeout = 600,
            loop = [\<lparr>t_key = PStr ''a'', t_delay = 600, t_status = Cancelled\<rparr>], storage = []\<rparr>)
   \<and> fire 0 (run [SetItem 5 (PStr ''a'') (PInt 2) NoDelay]
         (snd (delitem (PStr ''a'') (run [SetItem 0 (PStr ''a'') (PInt 1) NoDelay]
            \<lparr>timeout = 600, loop = [], storage = []\<rparr>))))
       = \<lparr>timeout = 600,
            loop = [\<lparr>t_key = PStr ''a'', t_delay = 600, t_status = Cancelled\<rparr>,
                    \<lparr>t_key = PStr ''a'', t_delay = 600, t_status = Pending\<rparr>],
            storage = [(PStr ''a'', PInt 2, 1)]\<rparr>"
proof -
  have h: "init 0 None = Inr \<lparr>timeout = 600, loop = [], storage = []\<rparr>"
    by (simp add: init_def)
  show ?thesis
    using h
      delitem_cancels_then_removes [OF h, of "[]" "PStr ''a''"]
      delitem_cancels_then_removes [OF h, of "[SetItem 0 (PStr ''a'') (PInt 1) NoDelay]"
        "PStr ''a''" "PInt 1" 0 "[SetItem 5 (PStr ''a'') (PInt 2) NoDelay]"]
    by (simp add: cache_defs)
qed


subsection \<open>The two conversions of \<^verbatim>\<open>set\<close>\<close>

text \<open>
  C10. A positive number converts to itself. When the conversion of the timeout
  returns \<open>n\<close>, \<^verbatim>\<open>set\<close>, which converts the timeout and lets \<^verbatim>\<open>__setitem__\<close> convert the
  result again, leaves the cache in the state that \<^verbatim>\<open>__setitem__\<close> alone, converting
  once, leaves it in, and the task it creates sleeps \<^verbatim>\<open>n or self.timeout\<close> seconds.
\<close>

theorem set_double_conversion:
  "(0 < s \<longrightarrow> convert_delay st now (Number s) = Inr s)
   \<and> (convert_delay (Some (timeout self)) now tm = Inr n \<longrightarrow>
        setitem now key val tm self
          = (Inr (), setitem_install key val n (setitem_pop_old key self))
      \<and> set_cache now key val tm self = (Inr val, snd (setitem now key val tm self))
      \<and> t_delay (last (loop (snd (set_cache now key val tm self))))
          = (if n \<noteq> 0 then n else timeout self))"
proof (intro conjI impI)
  show "convert_delay st now (Number s) = Inr s" if "0 < s"
    using that by simp
  assume c: "convert_delay (Some (timeout self)) now tm = Inr n"
  let ?s1 = "setitem_pop_old key self"
  show a: "setitem now key val tm self = (Inr (), setitem_install key val n ?s1)"
    using c by (simp add: setitem_def Let_def pop_old_timeout)
  have i: "setitem_install key val (if n \<noteq> 0 then n else timeout self) ?s1
      = setitem_install key val n ?s1"
    by (simp add: setitem_install_def create_task_def pop_old_timeout)
  have "setitem now key val (Number n) self = (Inr (), setitem_install key val n ?s1)"
    using i by (cases "n = 0") (simp_all add: setitem_def Let_def pop_old_timeout self_timeout_attr_def)
  then show b: "set_cache now key val tm self = (Inr val, snd (setitem now key val tm self))"
    using c a by (simp add: set_cache_def)
  show "t_delay (last (loop (snd (set_cache now key val tm self))))
      = (if n \<noteq> 0 then n else timeout self)"
    unfolding b a by (simp add: setitem_install_def create_task_def pop_old_timeout)
qed

theorem set_double_conversion_witness:
  "(0 :: real) < 30 \<and> convert_delay None 0 (Number 30) = Inr 30
   \<and> convert_delay (Some (timeout \<lparr>timeout = 600, loop = [], storage = []\<rparr>)) 0
        (Timedelta 0) = Inr 0
   \<and> set_cache 0 (PStr ''a'') (PInt 1) (Timedelta 0) \<lparr>timeout = 600, loop = [], storage = []\<rparr>
      = (Inr (PInt 1), snd (setitem 0 (PStr ''a'') (PInt 1) (Timedelta 0)
           \<lparr>timeout = 600, loop = [], storage = []\<rparr>))
   \<and> t_delay (last (loop (snd (set_cache 0 (PStr ''a'') (PInt 1) (Timedelta 0)
           \<lparr>timeout = 600, loop = [], storage = []\<rparr>)))) = 600"
  using set_double_conversion [of 30 None 0 "\<lparr>timeout = 600, loop = [], storage = []\<rparr>"
      "Timedelta 0" 0 "PStr ''a''" "PInt 1"]
  by (simp add: cache_defs)

subsection \<open>Iterating\<close>

lemma update_absent: "k \<notin> fst ` set al \<Longrightarrow> AList.update k v al = al @ [(k, v)]"
  by (induction al) auto

lemma snapshot_fold:
  "distinct (map fst xs) \<Longrightarrow> fst ` set acc \<inter> fst ` set xs = {} \<Longrightarrow>
   foldl (\<lambda>d (k, v). AList.update k (fst v) d) acc xs = acc @ map (\<lambda>(k, v). (k, fst v)) xs"
proof (induction xs arbitrary: acc)
  case Nil
  then show ?case by simp
next
  case (Cons x xs)
  obtain k v where x: "x = (k, v)" by (cases x)
  from Cons.prems x have k: "k \<notin> fst ` set acc" by auto
  have d: "distinct (map fst xs)" using Cons.prems by simp
  have i: "fst ` set (acc @ [(k, fst v)]) \<inter> fst ` set xs = {}"
    using Cons.prems x by auto
  show ?case
    using Cons.IH[OF d i] by (simp add: x update_absent[OF k])
qed

lemma iter_keys: "distinct (map fst (storage self)) \<Longrightarrow> iter self = map fst (storage self)"
proof -
  assume d: "distinct (map fst (storage self))"
  have "iter_snapshot self = map (\<lambda>(k, v). (k, fst v)) (storage self)"
    unfolding iter_snapshot_def using snapshot_fold[OF d, of "[]"] by simp
  then show ?thesis by (simp add: iter_def comp_def case_prod_beta)
qed

lemma consume_all: "consume it evs self = it"
  by (induction it evs self rule: consume.induct) simp_all


text \<open>
  C8, as amended. In every state a history of the cache can reach, the iterator
  yields the keys of \<open>storage\<close>, each once and in insertion order, and nothing
  else: no values and no task handles. It runs over a \<^verbatim>\<open>dict\<close> built when \<^verbatim>\<open>__iter__\<close> is
  called, so a loop over it sees these keys whatever happens to the cache between
  two items.
\<close>

theorem iter_yields_snapshot_of_keys:
  assumes "init now0 arg = Inr c0" and "self = run evs c0"
  shows "iter self = map fst (storage self) \<and> distinct (iter self)
       \<and> length (iter self) = len self
       \<and> consume (iter self) later self = map fst (storage self)"
proof -
  have "wf self" using assms wf_reachable by simp
  then have d: "distinct (map fst (storage self))" by (simp add: wf_def)
  from iter_keys[OF d] d show ?thesis by (simp add: consume_all len_def)
qed

theorem iter_yields_snapshot_of_keys_witness:
  "init 0 None = Inr \<lparr>timeout = 600, loop = [], storage = []\<rparr>
   \<and> iter (run [SetItem 0 (PInt 1) (PInt 10) NoDelay, SetItem 0 (PInt 2) (PInt 20) NoDelay]
        \<lparr>timeout = 600, loop = [], storage = []\<rparr>) = [PInt 1, PInt 2]
   \<and> consume (iter (run [SetItem 0 (PInt 1) (PInt 10) NoDelay, SetItem 0 (PInt 2) (PInt 20) NoDelay]
        \<lparr>timeout = 600, loop = [], storage = []\<rparr>)) [DelItem (PInt 2), SetItem 0 (PInt 3) (PInt 30) NoDelay]
        (run [SetItem 0 (PInt 1) (PInt 10) NoDelay, SetItem 0 (PInt 2) (PInt 20) NoDelay]
        \<lparr>timeout = 600, loop = [], storage = []\<rparr>) = [PInt 1, PInt 2]"
proof -
  have h: "init 0 None = Inr \<lparr>timeout = 600, loop = [], storage = []\<rparr>"
    by (simp add: init_def)
  show ?thesis
    using h iter_yields_snapshot_of_keys [OF h refl,
        of "[SetItem 0 (PInt 1) (PInt 10) NoDelay, SetItem 0 (PInt 2) (PInt 20) NoDelay]"
           "[DelItem (PInt 2), SetItem 0 (PInt 3) (PInt 30) NoDelay]"]
    by (simp add: cache_defs)
qed


text \<open>
  C8, as the claim states it, fails: after \<^verbatim>\<open>cache[1] = 10\<close> on a new cache the
  iterator yields the key \<open>1\<close>, not the pair \<open>(1, 10)\<close>.
\<close>

theorem iter_yields_pairs_counterexample:
  "iter (snd (setitem 0 (PInt 1) (PInt 10) NoDelay \<lparr>timeout = 600, loop = [], storage = []\<rparr>))
     = [PInt 1]
   \<and> [PInt 1] \<noteq> [PTuple [PInt 1, PInt 10]]"
  by (simp add: iter_def iter_snapshot_def cache_defs)

subsection \<open>Timers\<close>

lemma filter_upt_single: "t < n \<Longrightarrow> filter (\<lambda>i. i = t) [0..<n] = [t]"
proof (induction n)
  case 0
  then show ?case by simp
next
  case (Suc n)
  show ?case
  proof (cases "t = n")
    case True
    have "filter (\<lambda>i. i = n) [0..<n] = []" by (simp add: filter_empty_conv)
    with True show ?thesis by simp
  next
    case False
    with Suc.prems have "t < n" by simp
    from Suc.IH[OF this] False show ?thesis by simp
  qed
qed

lemma live_timers_present:
  assumes "wf self" and "map_of (storage self) k = Some (v, t)"
  shows "live_timers self k = [t]"
proof -
  let ?L = "loop self"
  from wf_entry[OF assms]
  have t: "t < length ?L" "t_key (?L ! t) = k" "t_status (?L ! t) = Pending" by auto
  have "(t_status (?L ! i) = Pending \<and> t_key (?L ! i) = k) = (i = t)"
    if "i \<in> set [0..<length ?L]" for i
  proof
    assume a: "t_status (?L ! i) = Pending \<and> t_key (?L ! i) = k"
    from that have "i < length ?L" by simp
    from wf_pending[OF assms(1) this] a obtain v' where "map_of (storage self) k = Some (v', i)"
      by auto
    with assms(2) show "i = t" by simp
  next
    assume "i = t"
    with t show "t_status (?L ! i) = Pending \<and> t_key (?L ! i) = k" by simp
  qed
  then have "live_timers self k = filter (\<lambda>i. i = t) [0..<length ?L]"
    unfolding live_timers_def by (rule filter_cong[OF refl])
  with t(1) show ?thesis by (simp add: filter_upt_single)
qed

lemma live_timers_absent:
  assumes "wf self" and "map_of (storage self) k = None"
  shows "live_timers self k = []"
proof -
  have "\<not> (t_status (loop self ! i) = Pending \<and> t_key (loop self ! i) = k)"
    if "i < length (loop self)" for i
    using wf_pending[OF assms(1) that] assms(2) by auto
  then show ?thesis by (simp add: live_timers_def filter_empty_conv)
qed

lemma wf_no_failure:
  "wf self \<Longrightarrow> t < length (loop self) \<Longrightarrow> t_status (loop self ! t) \<noteq> Failed e"
  unfolding wf_def by blast

lemma pop_old_length: "length (loop (setitem_pop_old k self)) = length (loop self)"
  by (simp add: setitem_pop_old_def cancel_def split: option.splits)

lemma install_entry:
  "map_of (storage (setitem_install k v n self)) k = Some (v, length (loop self))"
  by (simp add: setitem_install_def update_conv')

lemma install_task:
  "loop (setitem_install k v n self) ! length (loop self) = create_task k n self"
  by (simp add: setitem_install_def)


text \<open>
  The coroutine itself pops whatever is stored under its key: woken in a state where
  the entry belongs to another task, it removes that entry, and with the key absent
  it fails with \<^verbatim>\<open>KeyError\<close>. Such states are outside every history, because
  \<^verbatim>\<open>__setitem__\<close> and \<^verbatim>\<open>__delitem__\<close> cancel the task of the entry they remove.
\<close>

lemma timed_del_wake_unguarded:
  "timed_del_wake 0
     \<lparr>timeout = 600,
      loop = [\<lparr>t_key = PStr ''a'', t_delay = 600, t_status = Pending\<rparr>,
              \<lparr>t_key = PStr ''a'', t_delay = 600, t_status = Pending\<rparr>],
      storage = [(PStr ''a'', PInt 2, 1)]\<rparr>
   = \<lparr>timeout = 600,
      loop = [\<lparr>t_key = PStr ''a'', t_delay = 600, t_status = Finished\<rparr>,
              \<lparr>t_key = PStr ''a'', t_delay = 600, t_status = Pending\<rparr>],
      storage = []\<rparr>"
  "timed_del_wake 0
     \<lparr>timeout = 600,
      loop = [\<lparr>t_key = PStr ''a'', t_delay = 600, t_status = Pending\<rparr>],
      storage = []\<rparr>
   = \<lparr>timeout = 600,
      loop = [\<lparr>t_key = PStr ''a'', t_delay = 600, t_status = Failed (KeyError (PStr ''a''))\<rparr>],
      storage = []\<rparr>"
  by (simp_all add: timed_del_wake_def Let_def)

text \<open>
  C2. In every state a history of the cache can reach, the expiry of the timer of a
  task \<open>t\<close> changes the state only if \<open>t\<close> is pending and the entry stored under its
  key is the one holding \<open>t\<close>, and then it removes exactly that entry. If the entry
  under its key is not the one holding \<open>t\<close> (the key was deleted or overwritten
  since), the expiry changes nothing. No task ever ends with an exception.
\<close>

theorem timer_removes_only_its_own_entry:
  assumes "init now0 arg = Inr c0" and "self = run evs c0"
  shows "(fire t self \<noteq> self \<longrightarrow>
            t < length (loop self) \<and> t_status (loop self ! t) = Pending
          \<and> (\<exists>v. map_of (storage self) (t_key (loop self ! t)) = Some (v, t))
          \<and> storage (fire t self) = AList.delete (t_key (loop self ! t)) (storage self)
          \<and> t_status (loop (fire t self) ! t) = Finished)
       \<and> ((\<forall>v. map_of (storage self) (t_key (loop self ! t)) \<noteq> Some (v, t)) \<longrightarrow>
            fire t self = self)
       \<and> (t' < length (loop (fire t self)) \<longrightarrow> t_status (loop (fire t self) ! t') \<noteq> Failed e)"
proof (intro conjI impI)
  have w: "wf self" using assms wf_reachable by simp
  have w': "wf (fire t self)" using w by (rule wf_fire)
  show "t_status (loop (fire t self) ! t') \<noteq> Failed e" if "t' < length (loop (fire t self))"
    using w' that by (rule wf_no_failure)
  show "fire t self = self" if n: "\<forall>v. map_of (storage self) (t_key (loop self ! t)) \<noteq> Some (v, t)"
  proof (rule fire_not_pending, rule notI)
    assume "t < length (loop self) \<and> t_status (loop self ! t) = Pending"
    with wf_pending[OF w] n show False by blast
  qed
  assume ch: "fire t self \<noteq> self"
  with fire_not_pending[of t self]
  have lt: "t < length (loop self)" and p: "t_status (loop self ! t) = Pending" by auto
  show "t < length (loop self)" by (rule lt)
  show "t_status (loop self ! t) = Pending" by (rule p)
  show "\<exists>v. map_of (storage self) (t_key (loop self ! t)) = Some (v, t)"
    using w lt p by (rule wf_pending)
  show "storage (fire t self) = AList.delete (t_key (loop self ! t)) (storage self)"
    by (simp add: fire_pending[OF w lt p])
  show "t_status (loop (fire t self) ! t) = Finished"
    using lt by (simp add: fire_pending[OF w lt p])
qed

theorem timer_removes_only_its_own_entry_witness:
  "init 0 None = Inr \<lparr>timeout = 600, loop = [], storage = []\<rparr>
   \<and> run [SetItem 0 (PStr ''a'') (PInt 1) NoDelay, SetItem 1 (PStr ''a'') (PInt 2) NoDelay]
        \<lparr>timeout = 600, loop = [], storage = []\<rparr>
      = \<lparr>timeout = 600,
         loop = [\<lparr>t_key = PStr ''a'', t_delay = 600, t_status = Cancelled\<rparr>,
                 \<lparr>t_key = PStr ''a'', t_delay = 600, t_status = Pending\<rparr>],
         storage = [(PStr ''a'', PInt 2, 1)]\<rparr>
   \<and> fire 1 \<lparr>timeout = 600,
         loop = [\<lparr>t_key = PStr ''a'', t_delay = 600, t_status = Cancelled\<rparr>,
                 \<lparr>t_key = PStr ''a'', t_delay = 600, t_status = Pending\<rparr>],
         storage = [(PStr ''a'', PInt 2, 1)]\<rparr>
      = \<lparr>timeout = 600,
         loop = [\<lparr>t_key = PStr ''a'', t_delay = 600, t_status = Cancelled\<rparr>,
                 \<lparr>t_key = PStr ''a'', t_delay = 600, t_status = Finished\<rparr>],
         storage = []\<rparr>
   \<and> fire 0 \<lparr>timeout = 600,
         loop = [\<lparr>t_key = PStr ''a'', t_delay = 600, t_status = Cancelled\<rparr>,
                 \<lparr>t_key = PStr ''a'', t_delay = 600, t_status = Pending\<rparr>],
         storage = [(PStr ''a'', PInt 2, 1)]\<rparr>
      = \<lparr>timeout = 600,
         loop = [\<lparr>t_key = PStr ''a'', t_delay = 600, t_status = Cancelled\<rparr>,
                 \<lparr>t_key = PStr ''a'', t_delay = 600, t_status = Pending\<rparr>],
         storage = [(PStr ''a'', PInt 2, 1)]\<rparr>"
proof -
  have h: "init 0 None = Inr \<lparr>timeout = 600, loop = [], storage = []\<rparr>"
    by (simp add: init_def)
  have r: "\<lparr>timeout = 600,
         loop = [\<lparr>t_key = PStr ''a'', t_delay = 600, t_status = Cancelled\<rparr>,
                 \<lparr>t_key = PStr ''a'', t_delay = 600, t_status = Pending\<rparr>],
         storage = [(PStr ''a'', PInt 2, 1)]\<rparr>
      = run [SetItem 0 (PStr ''a'') (PInt 1) NoDelay, SetItem 1 (PStr ''a'') (PInt 2) NoDelay]
        \<lparr>timeout = 600, loop = [], storage = []\<rparr>"
    by (simp add: cache_defs)
  show ?thesis
    using h r timer_removes_only_its_own_entry [OF h r, of 1 0 "KeyError (PStr ''a'')"]
      timer_removes_only_its_own_entry [OF h r, of 0 0 "KeyError (PStr ''a'')"]
    by (simp add: cache_defs)
qed

text \<open>
  C1. In every state a history of the cache can reach, a key that is present has
  exactly one pending task, the one stored with it. \<^verbatim>\<open>__setitem__\<close> first pops the
  entry and cancels its task (lines 64-65), which leaves the key with no pending
  task, and only then creates the new task and stores the pair (lines 67-68). The
  new task is the only pending task of the key and it sleeps the converted timeout,
  or \<^verbatim>\<open>self.timeout\<close> when that is zero; it keeps this delay whatever happens later,
  and its expiry removes the key. The old task stays cancelled and its expiry does
  nothing. The delay of a task is the number of seconds passed to \<^verbatim>\<open>asyncio.sleep\<close>;
  how late the loop wakes a task after that is not part of this model.
\<close>

theorem one_live_timer_per_key:
  assumes "init now0 arg = Inr c0" and "self = run evs c0"
  shows "(map_of (storage self) key = Some (v, t) \<longrightarrow>
            live_timers self key = [t]
          \<and> t_status (loop (setitem_pop_old key self) ! t) = Cancelled
          \<and> t_status (loop (run later (snd (setitem now key val tm self))) ! t) = Cancelled
          \<and> fire t (run later (snd (setitem now key val tm self)))
              = run later (snd (setitem now key val tm self)))
       \<and> map_of (storage (setitem_pop_old key self)) key = None
       \<and> live_timers (setitem_pop_old key self) key = []
       \<and> (convert_delay (Some (timeout self)) now tm = Inr n \<longrightarrow>
            setitem now key val tm self
              = (Inr (), setitem_install key val n (setitem_pop_old key self))
          \<and> map_of (storage (snd (setitem now key val tm self))) key
              = Some (val, length (loop self))
          \<and> live_timers (snd (setitem now key val tm self)) key = [length (loop self)]
          \<and> t_delay (loop (run later (snd (setitem now key val tm self))) ! length (loop self))
              = (if n \<noteq> 0 then n else timeout self)
          \<and> map_of (storage (fire (length (loop self)) (snd (setitem now key val tm self)))) key
              = None)"
proof (intro conjI impI)
  let ?s1 = "setitem_pop_old key self"
  let ?s2 = "snd (setitem now key val tm self)"
  let ?t' = "length (loop self)"
  have w: "wf self" using assms wf_reachable by simp
  have w1: "wf ?s1" using w by (rule wf_pop_old)
  have w2: "wf ?s2" using w by (rule wf_setitem)
  show gone: "map_of (storage ?s1) key = None" by (rule pop_old_key_gone)
  show "live_timers ?s1 key = []" using w1 gone by (rule live_timers_absent)
  {
    assume m: "map_of (storage self) key = Some (v, t)"
    show "live_timers self key = [t]" using w m by (rule live_timers_present)
    have c1: "t < length (loop ?s1) \<and> t_status (loop ?s1 ! t) = Cancelled"
      using w m by (rule pop_old_cancels)
    then show "t_status (loop ?s1 ! t) = Cancelled" by simp
    have "kept (loop ?s1) (loop (setitem_install key val n' ?s1)) t" for n'
      using c1 by (simp add: kept_install)
    with c1 have "t < length (loop (setitem_install key val n' ?s1))
        \<and> t_status (loop (setitem_install key val n' ?s1) ! t) = Cancelled" for n'
      by (simp add: kept_def)
    with c1 have "t < length (loop ?s2) \<and> t_status (loop ?s2 ! t) = Cancelled"
      by (simp add: setitem_def Let_def split: sum.splits)
    then have r: "t < length (loop (run later ?s2))
        \<and> t_status (loop (run later ?s2) ! t) = Cancelled"
      using run_keeps by blast
    then show "t_status (loop (run later ?s2) ! t) = Cancelled" by simp
    from r show "fire t (run later ?s2) = run later ?s2" by (simp add: fire_def)
  }
  assume c: "convert_delay (Some (timeout self)) now tm = Inr n"
  show a: "setitem now key val tm self = (Inr (), setitem_install key val n ?s1)"
    using c by (simp add: setitem_def Let_def pop_old_timeout)
  then have s2: "?s2 = setitem_install key val n ?s1" by simp
  show e: "map_of (storage ?s2) key = Some (val, ?t')"
    unfolding s2 using install_entry[of key val n ?s1] by (simp add: pop_old_length)
  show "live_timers ?s2 key = [?t']" using w2 e by (rule live_timers_present)
  have task: "loop ?s2 ! ?t' = create_task key n ?s1"
    unfolding s2 using install_task[of key val n ?s1] by (simp add: pop_old_length)
  have lt: "?t' < length (loop ?s2)"
    unfolding s2 by (simp add: setitem_install_def pop_old_length)
  from kept_run[OF lt, of later] task
  show "t_delay (loop (run later ?s2) ! ?t') = (if n \<noteq> 0 then n else timeout self)"
    by (simp add: kept_def create_task_def pop_old_timeout)
  from wf_entry[OF w2 e] have p: "t_status (loop ?s2 ! ?t') = Pending" "t_key (loop ?s2 ! ?t') = key"
    by auto
  show "map_of (storage (fire ?t' ?s2)) key = None"
    using p by (simp add: fire_pending[OF w2 lt p(1)] delete_conv')
qed

theorem one_live_timer_per_key_witness:
  "init 0 None = Inr \<lparr>timeout = 600, loop = [], storage = []\<rparr>
   \<and> run [SetItem 0 (PStr ''a'') (PInt 1) NoDelay] \<lparr>timeout = 600, loop = [], storage = []\<rparr>
      = \<lparr>timeout = 600,
         loop = [\<lparr>t_key = PStr ''a'', t_delay = 600, t_status = Pending\<rparr>],
         storage = [(PStr ''a'', PInt 1, 0)]\<rparr>
   \<and> live_timers \<lparr>timeout = 600,
         loop = [\<lparr>t_key = PStr ''a'', t_delay = 600, t_status = Pending\<rparr>],
         storage = [(PStr ''a'', PInt 1, 0)]\<rparr> (PStr ''a'') = [0]
   \<and> convert_delay (Some 600) 1 (Timedelta 30000000) = Inr 30
   \<and> setitem_pop_old (PStr ''a'') \<lparr>timeout = 600,
         loop = [\<lparr>t_key = PStr ''a'', t_delay = 600, t_status = Pending\<rparr>],
         storage = [(PStr ''a'', PInt 1, 0)]\<rparr>
      = \<lparr>timeout = 600,
         loop = [\<lparr>t_key = PStr ''a'', t_delay = 600, t_status = Cancelled\<rparr>],
         storage = []\<rparr>
   \<and> setitem 1 (PStr ''a'') (PInt 2) (Timedelta 30000000) \<lparr>timeout = 600,
         loop = [\<lparr>t_key = PStr ''a'', t_delay = 600, t_status = Pending\<rparr>],
         storage = [(PStr ''a'', PInt 1, 0)]\<rparr>
      = (Inr (), \<lparr>timeout = 600,
         loop = [\<lparr>t_key = PStr ''a'', t_delay = 600, t_status = Cancelled\<rparr>,
                 \<lparr>t_key = PStr ''a'', t_delay = 30, t_status = Pending\<rparr>],
         storage = [(PStr ''a'', PInt 2, 1)]\<rparr>)
   \<and> live_timers \<lparr>timeout = 600,
         loop = [\<lparr>t_key = PStr ''a'', t_delay = 600, t_status = Cancelled\<rparr>,
                 \<lparr>t_key = PStr ''a'', t_delay = 30, t_status = Pending\<rparr>],
         storage = [(PStr ''a'', PInt 2, 1)]\<rparr> (PStr ''a'') = [1]"
proof -
  have h: "init 0 None = Inr \<lparr>timeout = 600, loop = [], storage = []\<rparr>"
    by (simp add: init_def)
  have r: "\<lparr>timeout = 600,
         loop = [\<lparr>t_key = PStr ''a'', t_delay = 600, t_status = Pending\<rparr>],
         storage = [(PStr ''a'', PInt 1, 0)]\<rparr>
      = run [SetItem 0 (PStr ''a'') (PInt 1) NoDelay] \<lparr>timeout = 600, loop = [], storage = []\<rparr>"
    by (simp add: cache_defs)
  show ?thesis
    using h r one_live_timer_per_key [OF h r, of "PStr ''a''" "PInt 1" 0 "[Fire 0]" 1 "PInt 2"
        "Timedelta 30000000" 30]
    by (simp add: cache_defs live_timers_def)
qed

end
